theory Spec2Isabelle
  imports Complex_Main "HOL-Library.Word" "HOL-Library.Log_Nat"
begin

section \<open>Machine types of the program\<close>

text \<open>
  The program works on C++ \<open>int\<close> values: the elements of the vector, the target, the
  bounds \<open>low\<close> and \<open>high\<close>, the probe position and the result. They are 32-bit words
  read as two's complement (\<open>sint\<close>); \<open>+\<close> and \<open>-\<close> on them wrap around, comparisons are
  the signed ones.
\<close>

type_synonym cint = "32 word"

text \<open>
  An access \<open>arr[i]\<close> outside the vector, a division by zero, the exception of a
  vector constructor and a distribution built with its lower bound above the upper one
  are not values of the program; the model makes them results of their own.
\<close>

datatype error = OutOfBounds | DivisionByZero | LengthError | InvalidRange

definition subscript :: "cint list \<Rightarrow> cint \<Rightarrow> error + cint" where
  "subscript arr i =
     (if 0 \<le> sint i \<and> sint i < int (length arr) then Inr (arr ! nat (sint i))
      else Inl OutOfBounds)"

text \<open>\<open>arr.size() - 1\<close> stored into an \<open>int\<close>: the value modulo \<open>2 ^ 32\<close>, so \<open>-1\<close> for
  the empty vector.\<close>

definition size_minus_1 :: "cint list \<Rightarrow> cint" where
  "size_minus_1 arr = word_of_int (int (length arr) - 1)"

section \<open>Double precision arithmetic\<close>

text \<open>
  A \<open>double\<close> is modelled by the rational number it denotes. Each arithmetic operation
  returns the exact result rounded to the nearest number with a 53-bit significand, ties
  to even (IEEE 754 binary64, default rounding), and each operation of the source rounds
  on its own (no fused multiply-add). The operands of the program are 32-bit integers,
  so every intermediate value is zero or has a magnitude between \<open>2 ^ -83\<close> and
  \<open>2 ^ 63\<close>: the exponent range of binary64 is never left, and no infinity, NaN or
  subnormal number arises. A 32-bit integer is a \<open>double\<close> as it is.
\<close>

definition pow2 :: "int \<Rightarrow> rat" where
  "pow2 e = (if 0 \<le> e then 2 ^ nat e else 1 / 2 ^ nat (- e))"

definition round_even :: "rat \<Rightarrow> int" where
  "round_even x =
     (let f = \<lfloor>x\<rfloor>; r = x - of_int f
      in if r < 1 / 2 then f
         else if 1 / 2 < r then f + 1
         else if even f then f else f + 1)"

text \<open>The exponent \<open>e\<close> with \<open>2 ^ e \<le> |x| < 2 ^ (e + 1)\<close>, for \<open>x \<noteq> 0\<close>.\<close>

definition binade :: "rat \<Rightarrow> int" where
  "binade x =
     (let k = bitlen (fst (quotient_of \<bar>x\<bar>)) - bitlen (snd (quotient_of \<bar>x\<bar>))
      in if pow2 k \<le> \<bar>x\<bar> then k else k - 1)"

definition to_double :: "rat \<Rightarrow> rat" where
  "to_double x =
     (if x = 0 then 0
      else let u = pow2 (binade x - 52) in of_int (round_even (x / u)) * u)"

definition double_of_int :: "cint \<Rightarrow> rat" where
  "double_of_int i = of_int (sint i)"

definition double_div :: "rat \<Rightarrow> rat \<Rightarrow> rat" where
  "double_div a b = to_double (a / b)"

definition double_mul :: "rat \<Rightarrow> rat \<Rightarrow> rat" where
  "double_mul a b = to_double (a * b)"

definition double_add :: "rat \<Rightarrow> rat \<Rightarrow> rat" where
  "double_add a b = to_double (a + b)"

text \<open>
  The conversion of a \<open>double\<close> to \<open>int\<close> drops the fraction. C++ leaves the result
  undefined when the truncated value is not an \<open>int\<close>; the model takes what the x86-64
  conversion instruction returns then, the smallest \<open>int\<close>. This happens only after an
  overflow of the \<open>int\<close> subtractions in the estimate, and the position is clamped into
  \<open>[low, high]\<close> right after.
\<close>

definition truncate :: "rat \<Rightarrow> int" where
  "truncate x = (if 0 \<le> x then \<lfloor>x\<rfloor> else \<lceil>x\<rceil>)"

definition int_of_double :: "rat \<Rightarrow> cint" where
  "int_of_double x =
     (if - (2 ^ 31) \<le> truncate x \<and> truncate x < 2 ^ 31 then word_of_int (truncate x)
      else word_of_int (- (2 ^ 31)))"

section \<open>The search\<close>

text \<open>\<open>std::clamp(v, lo, hi)\<close>.\<close>

definition clamp :: "cint \<Rightarrow> cint \<Rightarrow> cint \<Rightarrow> cint" where
  "clamp v lo hi = (if v <s lo then lo else if hi <s v then hi else v)"

text \<open>
  The position estimate
  \<^verbatim>\<open>low + (((double)(high - low) / (arr[high] - arr[low])) * (target - arr[low]))\<close>
  converted to \<open>int\<close>. The two differences of elements are \<open>int\<close> subtractions, done before
  the conversion to \<open>double\<close>, and wrap around like every \<open>int\<close> operation of the model (C++
  leaves a signed overflow undefined); \<open>al\<close> and \<open>ah\<close> are \<open>arr[low]\<close> and \<open>arr[high]\<close>.
\<close>

definition probe :: "cint \<Rightarrow> cint \<Rightarrow> cint \<Rightarrow> cint \<Rightarrow> cint \<Rightarrow> error + cint" where
  "probe low high al ah target =
     (if ah - al = 0 then Inl DivisionByZero
      else Inr (int_of_double
        (double_add (double_of_int low)
          (double_mul
            (double_div (double_of_int (high - low)) (double_of_int (ah - al)))
            (double_of_int (target - al))))))"

text \<open>
  The loop condition \<^verbatim>\<open>low <= high && target >= arr[low] && target <= arr[high]\<close>, with
  the short-circuit evaluation of \<^verbatim>\<open>&&\<close>: an element is read only when the tests before
  it hold.
\<close>

definition loop_cond :: "cint list \<Rightarrow> cint \<Rightarrow> cint \<Rightarrow> cint \<Rightarrow> error + bool" where
  "loop_cond arr target low high =
     (if \<not> low \<le>s high then Inr False
      else (case subscript arr low of Inl e \<Rightarrow> Inl e | Inr al \<Rightarrow>
        if \<not> al \<le>s target then Inr False
        else (case subscript arr high of Inl e \<Rightarrow> Inl e | Inr ah \<Rightarrow>
          Inr (target \<le>s ah))))"

text \<open>One run of the loop body: it returns from the function, or goes on with new bounds.\<close>

datatype iteration = Return cint | Continue cint cint

definition loop_body :: "cint list \<Rightarrow> cint \<Rightarrow> cint \<Rightarrow> cint \<Rightarrow> error + iteration" where
  "loop_body arr target low high =
     (case subscript arr high of Inl e \<Rightarrow> Inl e | Inr ah \<Rightarrow>
      (case subscript arr low of Inl e \<Rightarrow> Inl e | Inr al \<Rightarrow>
        if ah = al then Inr (Return (if al = target then low else - 1))
        else (case probe low high al ah target of Inl e \<Rightarrow> Inl e | Inr p \<Rightarrow>
          let pos = clamp p low high in
          (case subscript arr pos of Inl e \<Rightarrow> Inl e | Inr ap \<Rightarrow>
            if ap = target then Inr (Return pos)
            else if ap <s target then Inr (Continue (pos + 1) high)
            else Inr (Continue low (pos - 1))))))"

text \<open>The \<^verbatim>\<open>while\<close> loop, and \<^verbatim>\<open>return -1\<close> after it.\<close>

function search_loop :: "cint list \<Rightarrow> cint \<Rightarrow> cint \<Rightarrow> cint \<Rightarrow> error + cint" where
  "search_loop arr target low high =
     (case loop_cond arr target low high of
        Inl e \<Rightarrow> Inl e
      | Inr c \<Rightarrow>
          if \<not> c then Inr (- 1)
          else (case loop_body arr target low high of
              Inl e \<Rightarrow> Inl e
            | Inr (Return r) \<Rightarrow> Inr r
            | Inr (Continue low' high') \<Rightarrow> search_loop arr target low' high'))"
  by pat_completeness auto

definition interpolationSearch :: "cint list \<Rightarrow> cint \<Rightarrow> error + cint" where
  "interpolationSearch arr target = search_loop arr target 0 (size_minus_1 arr)"

text \<open>
  The same loop with a budget: \<open>run_loop n\<close> evaluates the loop condition at most \<open>n\<close>
  times and is \<open>None\<close> when the loop has not finished by then.
\<close>

fun run_loop :: "nat \<Rightarrow> cint list \<Rightarrow> cint \<Rightarrow> cint \<Rightarrow> cint \<Rightarrow> (error + cint) option" where
  "run_loop 0 arr target low high = None"
| "run_loop (Suc n) arr target low high =
     (case loop_cond arr target low high of
        Inl e \<Rightarrow> Some (Inl e)
      | Inr c \<Rightarrow>
          if \<not> c then Some (Inr (- 1))
          else (case loop_body arr target low high of
              Inl e \<Rightarrow> Some (Inl e)
            | Inr (Return r) \<Rightarrow> Some (Inr r)
            | Inr (Continue low' high') \<Rightarrow> run_loop n arr target low' high'))"

text \<open>The bounds with which the loop condition is evaluated during a search.\<close>

inductive reachable :: "cint list \<Rightarrow> cint \<Rightarrow> cint \<Rightarrow> cint \<Rightarrow> bool"
  for arr :: "cint list" and target :: cint where
  start: "reachable arr target 0 (size_minus_1 arr)"
| step: "reachable arr target low high \<Longrightarrow> loop_cond arr target low high = Inr True \<Longrightarrow>
     loop_body arr target low high = Inr (Continue low' high') \<Longrightarrow>
     reachable arr target low' high'"

text \<open>
  The position the specification gives for the probe, on unbounded integers:
  \<open>pos = low + floor((high - low) * (t - S[low]) / (S[high] - S[low]))\<close>.
\<close>

definition interpolated_position :: "cint \<Rightarrow> cint \<Rightarrow> cint \<Rightarrow> cint \<Rightarrow> cint \<Rightarrow> int" where
  "interpolated_position low high al ah target =
     sint low + \<lfloor>(of_int ((sint high - sint low) * (sint target - sint al)) :: rat)
                   / of_int (sint ah - sint al)\<rfloor>"

section \<open>The generator\<close>

text \<open>
  The bounds the code gives to the distribution in
  \<^verbatim>\<open>uniform_int_distribution<> dist(1, size * 10)\<close>, \<open>size * 10\<close> being an \<open>int\<close> product
  (\<open>sz\<close> stands for \<open>size\<close>), and what the library promises of a value drawn from a
  distribution with valid bounds: it lies within them.
\<close>

definition dist_bounds :: "cint \<Rightarrow> cint \<times> cint" where
  "dist_bounds sz = (1, sz * 10)"

definition drawn_within :: "cint \<times> cint \<Rightarrow> cint \<Rightarrow> bool" where
  "drawn_within bounds x \<longleftrightarrow> fst bounds \<le>s x \<and> x \<le>s snd bounds"

text \<open>
  \<^verbatim>\<open>generateSortedArray\<close>, statement by statement. \<^verbatim>\<open>vector<int> arr(size)\<close> throws for a
  negative \<open>size\<close>. The constructor of the distribution requires that the lower bound is
  not above the upper one; the behaviour of the program is undefined otherwise, and the
  model stops there with \<open>InvalidRange\<close>. That is the case when \<open>size * 10\<close> overflows to
  a value below 1, and for \<open>size = 0\<close>, where the bounds are \<open>(1, 0)\<close>. The random engine
  is not part of the model: \<open>draw i\<close> is the value the \<open>i\<close>-th call \<^verbatim>\<open>dist(gen)\<close> returns.
  \<^verbatim>\<open>std::sort\<close> on \<open>int\<close> is the ascending sort by signed value.
\<close>

definition generateSortedArray :: "(nat \<Rightarrow> cint) \<Rightarrow> cint \<Rightarrow> error + cint list" where
  "generateSortedArray draw sz =
     (if sint sz < 0 then Inl LengthError
      else if snd (dist_bounds sz) <s fst (dist_bounds sz) then Inl InvalidRange
      else Inr (sort_key sint (map draw [0..<nat (sint sz)])))"

section \<open>Termination of the loop\<close>

text \<open>Signed arithmetic on the bounds stays in range where the program uses it.\<close>

lemma clamp_range:
  "lo \<le>s hi \<Longrightarrow> sint lo \<le> sint (clamp v lo hi) \<and> sint (clamp v lo hi) \<le> sint hi"
  by (auto simp: clamp_def word_sle_eq word_sless_alt)

lemma sint_succ:
  fixes p h :: cint
  assumes "sint p < sint h"
  shows "sint (p + 1) = sint p + 1"
  using assms sint_lt [of h] sint_ge [of p]
  by (simp add: sint_word_ariths signed_take_bit_int_eq_self)

lemma sint_pred:
  fixes p l :: cint
  assumes "sint l < sint p"
  shows "sint (p - 1) = sint p - 1"
  using assms sint_lt [of p] sint_ge [of l]
  by (simp add: sint_word_ariths signed_take_bit_int_eq_self)

lemma sint_neq:
  fixes a b :: cint
  shows "a \<noteq> b \<Longrightarrow> sint a \<noteq> sint b"
  using signed_word_eqI [of a b] by blast

lemma loop_cond_True:
  assumes "loop_cond arr target low high = Inr True"
  shows "\<exists>al ah. low \<le>s high \<and> subscript arr low = Inr al \<and> al \<le>s target
    \<and> subscript arr high = Inr ah \<and> target \<le>s ah"
  using assms unfolding loop_cond_def
  by (auto split: if_splits sum.splits)

lemma loop_body_Continue:
  assumes "loop_body arr target low high = Inr (Continue low' high')"
  shows "\<exists>al ah p ap.
    subscript arr low = Inr al \<and> subscript arr high = Inr ah \<and> ah \<noteq> al
    \<and> probe low high al ah target = Inr p
    \<and> subscript arr (clamp p low high) = Inr ap \<and> ap \<noteq> target
    \<and> (if ap <s target then low' = clamp p low high + 1 \<and> high' = high
         else low' = low \<and> high' = clamp p low high - 1)"
  using assms unfolding loop_body_def Let_def
  by (auto split: if_splits sum.splits)

lemma loop_shrinks_aux:
  assumes c: "loop_cond arr target low high = Inr True"
    and b: "loop_body arr target low high = Inr (Continue low' high')"
  shows "sint low \<le> sint low' \<and> sint high' \<le> sint high \<and> sint low' \<le> sint high' + 1
         \<and> sint high' - sint low' < sint high - sint low"
proof -
  from loop_cond_True [OF c] obtain al ah where
    lh: "low \<le>s high" and al: "subscript arr low = Inr al" "al \<le>s target"
    and ah: "subscript arr high = Inr ah" "target \<le>s ah"
    by blast
  from loop_body_Continue [OF b] al ah obtain p ap where
    ap: "subscript arr (clamp p low high) = Inr ap" "ap \<noteq> target"
    and dir: "if ap <s target then low' = clamp p low high + 1 \<and> high' = high
         else low' = low \<and> high' = clamp p low high - 1"
    by auto
  let ?pos = "clamp p low high"
  from lh have rng: "sint low \<le> sint ?pos" "sint ?pos \<le> sint high"
    using clamp_range [of low high p] by simp_all
  show ?thesis
  proof (cases "ap <s target")
    case True
    with ah ap have "?pos \<noteq> high"
      by (auto simp: word_sless_alt word_sle_eq)
    with rng sint_neq [of ?pos high] have "sint ?pos < sint high"
      by simp
    then have "sint (?pos + 1) = sint ?pos + 1" "sint ?pos + 1 \<le> sint high"
      by (simp_all add: sint_succ)
    with True dir rng show ?thesis by simp
  next
    case False
    with ap sint_neq [of ap target] have "sint target < sint ap"
      by (simp add: word_sless_alt)
    with al ap have "?pos \<noteq> low"
      by (auto simp: word_sle_eq)
    with rng sint_neq [of ?pos low] have "sint low < sint ?pos"
      by simp
    then have "sint (?pos - 1) = sint ?pos - 1" "sint low \<le> sint ?pos - 1"
      by (simp_all add: sint_pred)
    with False dir rng show ?thesis by simp
  qed
qed

termination search_loop
proof (relation "measure (\<lambda>(arr, target, low, high). nat (sint high - sint low + 1))")
  show "wf (measure (\<lambda>(arr, target, low, high). nat (sint high - sint low + 1)))"
    by simp
next
  fix arr :: "cint list" and target low high low' high' :: cint and c :: bool
    and it :: iteration
  assume "loop_cond arr target low high = Inr c" "\<not> \<not> c"
    and "loop_body arr target low high = Inr it" "it = Continue low' high'"
  then have "loop_cond arr target low high = Inr True"
    and "loop_body arr target low high = Inr (Continue low' high')"
    by simp_all
  from loop_shrinks_aux [OF this]
  show "((arr, target, low', high'), (arr, target, low, high))
        \<in> measure (\<lambda>(arr, target, low, high). nat (sint high - sint low + 1))"
    by simp
qed

declare search_loop.simps [simp del]

section \<open>Properties of the loop\<close>

lemma subscript_Inr_iff:
  "subscript arr i = Inr x \<longleftrightarrow> 0 \<le> sint i \<and> sint i < int (length arr) \<and> arr ! nat (sint i) = x"
  by (auto simp: subscript_def)

lemma subscript_in_bounds:
  "0 \<le> sint i \<Longrightarrow> sint i < int (length arr) \<Longrightarrow> subscript arr i = Inr (arr ! nat (sint i))"
  by (simp add: subscript_def)

lemma sint_word_of_int:
  "- (2 ^ 31) \<le> k \<Longrightarrow> k < 2 ^ 31 \<Longrightarrow> sint (word_of_int k :: cint) = k"
  by (simp add: sint_sbintrunc' signed_take_bit_int_eq_self)

lemma sint_size_minus_1:
  assumes "length arr \<le> 2 ^ 31"
  shows "sint (size_minus_1 arr) = int (length arr) - 1"
proof -
  from assms have "int (length arr) \<le> 2 ^ 31"
    by (metis of_nat_le_iff of_nat_numeral of_nat_power)
  then show ?thesis
    unfolding size_minus_1_def by (intro sint_word_of_int) simp_all
qed

lemma sint_size_minus_1_less: "sint (size_minus_1 arr) < int (length arr)"
proof (cases "length arr \<le> 2 ^ 31")
  case True
  then show ?thesis by (simp add: sint_size_minus_1)
next
  case False
  then have "(2::int) ^ 31 < int (length arr)"
    by (metis not_le of_nat_less_iff of_nat_numeral of_nat_power)
  with sint_lt [of "size_minus_1 arr"] show ?thesis by simp
qed

lemma size_minus_1_Nil: "size_minus_1 [] = - 1"
  by (simp add: size_minus_1_def)

lemma probe_no_error: "ah \<noteq> al \<Longrightarrow> \<exists>p. probe low high al ah target = Inr p"
  by (simp add: probe_def)

lemma loop_cond_no_error:
  assumes "0 \<le> sint low" "sint high < int (length arr)"
  shows "\<exists>c. loop_cond arr target low high = Inr c"
  using assms
  by (auto simp: loop_cond_def subscript_def word_sle_eq)

lemma loop_body_no_error:
  assumes "0 \<le> sint low" "sint high < int (length arr)" "low \<le>s high"
  shows "\<exists>it. loop_body arr target low high = Inr it"
proof -
  from assms have lo: "subscript arr low = Inr (arr ! nat (sint low))"
    and hi: "subscript arr high = Inr (arr ! nat (sint high))"
    by (simp_all add: subscript_def word_sle_eq)
  have pos: "subscript arr (clamp p low high) = Inr (arr ! nat (sint (clamp p low high)))" for p
    using clamp_range [OF assms(3), of p] assms(1,2) by (simp add: subscript_def)
  show ?thesis
    using probe_no_error [of "arr ! nat (sint high)" "arr ! nat (sint low)" low high target]
    by (auto simp: loop_body_def lo hi pos Let_def)
qed

lemma loop_cond_in_bounds:
  assumes "0 \<le> sint low" "sint high < int (length arr)" "low \<le>s high"
  shows "loop_cond arr target low high =
    Inr (arr ! nat (sint low) \<le>s target \<and> target \<le>s arr ! nat (sint high))"
  using assms by (simp add: loop_cond_def subscript_def word_sle_eq)

lemma loop_body_in_bounds:
  assumes "0 \<le> sint low" "sint high < int (length arr)" "low \<le>s high"
  shows "loop_body arr target low high =
    (let al = arr ! nat (sint low); ah = arr ! nat (sint high) in
     if ah = al then Inr (Return (if al = target then low else - 1))
     else (case probe low high al ah target of Inl e \<Rightarrow> Inl e | Inr p \<Rightarrow>
       let pos = clamp p low high; ap = arr ! nat (sint pos) in
       if ap = target then Inr (Return pos)
       else if ap <s target then Inr (Continue (pos + 1) high)
       else Inr (Continue low (pos - 1))))"
proof -
  from assms have lo: "subscript arr low = Inr (arr ! nat (sint low))"
    and hi: "subscript arr high = Inr (arr ! nat (sint high))"
    by (simp_all add: subscript_def word_sle_eq)
  have pos: "subscript arr (clamp p low high) = Inr (arr ! nat (sint (clamp p low high)))" for p
    using clamp_range [OF assms(3), of p] assms(1,2) by (simp add: subscript_def)
  show ?thesis
    by (simp add: loop_body_def lo hi pos Let_def split: sum.splits)
qed

lemma search_loop_exit:
  "loop_cond arr target low high = Inr False \<Longrightarrow> search_loop arr target low high = Inr (- 1)"
  by (simp add: search_loop.simps [of arr target low high])

lemma search_loop_return:
  "loop_cond arr target low high = Inr True \<Longrightarrow> loop_body arr target low high = Inr (Return r) \<Longrightarrow>
   search_loop arr target low high = Inr r"
  by (simp add: search_loop.simps [of arr target low high])

lemma search_loop_no_error:
  "0 \<le> sint low \<Longrightarrow> sint high < int (length arr) \<Longrightarrow> \<exists>r. search_loop arr target low high = Inr r"
proof (induction arr target low high rule: search_loop.induct)
  case (1 arr target low high)
  from loop_cond_no_error [OF "1.prems"] obtain c where c: "loop_cond arr target low high = Inr c"
    by blast
  show ?case
  proof (cases c)
    case False
    with c show ?thesis by (simp add: search_loop.simps [of arr target low high])
  next
    case True
    with c loop_cond_True [of arr target low high] have "low \<le>s high" by auto
    from loop_body_no_error [OF "1.prems" this] obtain it where it: "loop_body arr target low high = Inr it"
      by blast
    show ?thesis
    proof (cases it)
      case (Return r)
      with c True it show ?thesis by (simp add: search_loop.simps [of arr target low high])
    next
      case (Continue low' high')
      from loop_shrinks_aux [of arr target low high low' high'] c True it Continue "1.prems"
      have "0 \<le> sint low'" "sint high' < int (length arr)" by simp_all
      from "1.IH" [OF c _ it Continue this] True
      have "\<exists>r. search_loop arr target low' high' = Inr r" by simp
      with c True it Continue show ?thesis by (simp add: search_loop.simps [of arr target low high])
    qed
  qed
qed

lemma search_no_error: "\<exists>r. interpolationSearch S t = Inr r"
  unfolding interpolationSearch_def
  by (rule search_loop_no_error) (simp_all add: sint_size_minus_1_less)

lemma search_loop_sound:
  "search_loop arr target low high = Inr i \<Longrightarrow> i \<noteq> - 1 \<Longrightarrow> subscript arr i = Inr target"
proof (induction arr target low high rule: search_loop.induct)
  case (1 arr target low high)
  from "1.prems" show ?case
    apply (subst (asm) search_loop.simps)
    apply (auto split: sum.splits if_splits iteration.splits simp: loop_body_def Let_def dest: "1.IH")
    done
qed

lemma sorted_sint_nth:
  assumes "sorted (map sint arr)" "i \<le> j" "j < length arr"
  shows "sint (arr ! i :: cint) \<le> sint (arr ! j)"
  using sorted_nth_mono [OF assms(1), of i j] assms(2,3) by simp

lemma search_loop_complete:
  shows "sorted (map sint arr) \<Longrightarrow> 0 \<le> sint low \<Longrightarrow> sint high < int (length arr) \<Longrightarrow>
    \<exists>k. sint low \<le> k \<and> k \<le> sint high \<and> arr ! nat k = target \<Longrightarrow>
    \<exists>i. search_loop arr target low high = Inr i \<and> subscript arr i = Inr target"
proof (induction arr target low high rule: search_loop.induct)
  case (1 arr target low high)
  note srt = "1.prems"(1) and lo0 = "1.prems"(2) and hin = "1.prems"(3)
  from "1.prems" obtain k where k: "sint low \<le> k" "k \<le> sint high" "arr ! nat k = target"
    by blast
  with "1.prems" have lh: "low \<le>s high" and kn: "0 \<le> k" "nat k < length arr"
    by (simp_all add: word_sle_eq)
  let ?al = "arr ! nat (sint low)" and ?ah = "arr ! nat (sint high)"
  have al: "sint ?al \<le> sint target"
    using sorted_sint_nth [OF srt, of "nat (sint low)" "nat k"] k kn lo0 by simp
  have ah: "sint target \<le> sint ?ah"
    using sorted_sint_nth [OF srt, of "nat k" "nat (sint high)"] k kn hin by simp
  have c: "loop_cond arr target low high = Inr True"
    using al ah by (simp add: loop_cond_in_bounds [OF lo0 hin lh] word_sle_eq)
  note b = loop_body_in_bounds [OF lo0 hin lh, of target]
  have lo: "subscript arr low = Inr ?al"
    using lo0 hin lh by (simp add: subscript_def word_sle_eq)
  show ?case
  proof (cases "?ah = ?al")
    case True
    with al ah sint_neq [of ?al target] have "?al = target"
      by auto
    with True b c lo show ?thesis
      by (simp add: search_loop.simps [of arr target low high])
  next
    case False
    then obtain p where p: "probe low high ?al ?ah target = Inr p"
      using probe_no_error by blast
    let ?pos = "clamp p low high"
    let ?ap = "arr ! nat (sint ?pos)"
    from clamp_range [OF lh, of p] have rng: "sint low \<le> sint ?pos" "sint ?pos \<le> sint high"
      by simp_all
    with "1.prems" have pos: "subscript arr ?pos = Inr ?ap"
      by (simp add: subscript_def)
    consider (found) "?ap = target" | (up) "?ap \<noteq> target" "?ap <s target"
      | (down) "?ap \<noteq> target" "\<not> ?ap <s target"
      by blast
    then show ?thesis
    proof cases
      case found
      with False b c p pos show ?thesis
        by (simp add: search_loop.simps [of arr target low high])
    next
      case up
      with False b p have it: "loop_body arr target low high = Inr (Continue (?pos + 1) high)"
        by simp
      have "sint ?pos < k"
      proof (rule ccontr)
        assume "\<not> sint ?pos < k"
        then have "sint (arr ! nat k) \<le> sint ?ap"
          using sorted_sint_nth [OF srt, of "nat k" "nat (sint ?pos)"] rng "1.prems" kn by simp
        with up k show False by (simp add: word_sless_alt)
      qed
      moreover from this k have "sint (?pos + 1) = sint ?pos + 1"
        by (intro sint_succ [of _ high]) simp
      ultimately have ex: "\<exists>k. sint (?pos + 1) \<le> k \<and> k \<le> sint high \<and> arr ! nat k = target"
        using k by (intro exI [of _ k]) simp
      from loop_shrinks_aux [OF c it] "1.prems" have "0 \<le> sint (?pos + 1)"
        by simp
      from "1.IH" [OF c _ it refl srt this hin ex]
      have "\<exists>i. search_loop arr target (?pos + 1) high = Inr i \<and> subscript arr i = Inr target"
        by simp
      with c it show ?thesis
        by (simp add: search_loop.simps [of arr target low high])
    next
      case down
      with False b p have it: "loop_body arr target low high = Inr (Continue low (?pos - 1))"
        by simp
      from down sint_neq [of ?ap target] have gt: "sint target < sint ?ap"
        by (simp add: word_sless_alt)
      have "k < sint ?pos"
      proof (rule ccontr)
        assume "\<not> k < sint ?pos"
        then have "sint ?ap \<le> sint (arr ! nat k)"
          using sorted_sint_nth [OF srt, of "nat (sint ?pos)" "nat k"] rng "1.prems" kn by simp
        with gt k show False by simp
      qed
      moreover from this k have "sint (?pos - 1) = sint ?pos - 1"
        by (intro sint_pred [of low]) simp
      ultimately have ex: "\<exists>k. sint low \<le> k \<and> k \<le> sint (?pos - 1) \<and> arr ! nat k = target"
        using k by (intro exI [of _ k]) simp
      from loop_shrinks_aux [OF c it] "1.prems" have "sint (?pos - 1) < int (length arr)"
        by simp
      from "1.IH" [OF c _ it refl srt lo0 this ex]
      have "\<exists>i. search_loop arr target low (?pos - 1) = Inr i \<and> subscript arr i = Inr target"
        by simp
      with c it show ?thesis
        by (simp add: search_loop.simps [of arr target low high])
    qed
  qed
qed

lemma loop_cond_outside:
  assumes "sorted (map sint S)" and "S = [] \<or> v <s hd S \<or> last S <s v"
  shows "loop_cond S v 0 (size_minus_1 S) = Inr False"
proof (cases "0 \<le>s size_minus_1 S")
  case False
  then show ?thesis by (simp add: loop_cond_def)
next
  case True
  let ?high = "size_minus_1 S"
  from True have b: "0 \<le> sint (0 :: cint)" "sint ?high < int (length S)" "0 \<le>s ?high"
    by (simp_all add: sint_size_minus_1_less)
  then have h: "0 \<le> sint ?high" "nat (sint ?high) < length S"
    by (simp_all add: word_sle_eq)
  then have ne: "S \<noteq> []" by auto
  with assms(2) consider (below) "v <s hd S" | (above) "last S <s v" by blast
  then show ?thesis
  proof cases
    case below
    with ne have "\<not> S ! 0 \<le>s v"
      by (simp add: hd_conv_nth word_sless_alt word_sle_eq)
    then show ?thesis
      by (simp add: loop_cond_in_bounds [OF b])
  next
    case above
    from ne h have "sint (S ! nat (sint ?high)) \<le> sint (S ! (length S - 1))"
      by (intro sorted_sint_nth [OF assms(1)]) simp_all
    with ne above have "\<not> v \<le>s S ! nat (sint ?high)"
      by (simp add: last_conv_nth word_sless_alt word_sle_eq)
    then show ?thesis
      by (simp add: loop_cond_in_bounds [OF b])
  qed
qed

text \<open>A vector of \<open>2 ^ 31 + 1\<close> elements: \<open>high\<close> is the smallest \<open>int\<close>, the loop is not
  entered.\<close>

lemma huge_vector_not_searched:
  "interpolationSearch (replicate 2147483649 c) t = Inr (- 1)"
proof -
  have "size_minus_1 (replicate 2147483649 c) = word_of_int 2147483648"
    by (simp add: size_minus_1_def)
  moreover have "sint (word_of_int 2147483648 :: cint) = - 2147483648"
    by simp
  ultimately have "loop_cond (replicate 2147483649 c) t 0 (size_minus_1 (replicate 2147483649 c)) = Inr False"
    by (simp add: loop_cond_def word_sle_eq)
  then show ?thesis
    by (simp add: interpolationSearch_def search_loop_exit)
qed

lemma run_loop_enough:
  "nat (sint high - sint low + 1) < n \<Longrightarrow>
   run_loop n arr target low high = Some (search_loop arr target low high)"
proof (induction n arbitrary: low high)
  case 0
  then show ?case by simp
next
  case (Suc n)
  show ?case
  proof (cases "loop_cond arr target low high")
    case (Inl e)
    then show ?thesis by (simp add: search_loop.simps [of arr target low high])
  next
    case c: (Inr c)
    show ?thesis
    proof (cases c)
      case False
      with c show ?thesis by (simp add: search_loop.simps [of arr target low high])
    next
      case True
      show ?thesis
      proof (cases "loop_body arr target low high")
        case (Inl e)
        with c True show ?thesis by (simp add: search_loop.simps [of arr target low high])
      next
        case it: (Inr it)
        show ?thesis
        proof (cases it)
          case (Return r)
          with c True it show ?thesis by (simp add: search_loop.simps [of arr target low high])
        next
          case (Continue low' high')
          from c True it Continue
          have "sint low' \<le> sint high' + 1 \<and> sint high' - sint low' < sint high - sint low"
            using loop_shrinks_aux [of arr target low high low' high'] by simp
          with Suc.prems have "nat (sint high' - sint low' + 1) < n" by linarith
          from Suc.IH [OF this] c True it Continue show ?thesis
            by (simp add: search_loop.simps [of arr target low high])
        qed
      qed
    qed
  qed
qed

lemma reachable_bounds:
  "reachable arr target low high \<Longrightarrow> 0 \<le> sint low \<and> sint high < int (length arr)"
proof (induction rule: reachable.induct)
  case start
  show ?case by (simp add: sint_size_minus_1_less)
next
  case (step low high low' high')
  with loop_shrinks_aux [of arr target low high low' high'] show ?case by simp
qed

section \<open>Accuracy of the double precision operations\<close>

lemma pow2_powi: "pow2 e = 2 powi e"
  by (simp add: pow2_def power_int_def inverse_eq_divide power_one_over)


lemma pow2_diff: "pow2 (a - b) = pow2 a / pow2 b"
  by (simp add: pow2_powi power_int_diff)

lemma pow2_nat: "0 \<le> e \<Longrightarrow> pow2 e = 2 ^ nat e"
  by (simp add: pow2_def)


lemma binade_bounds:
  assumes "x \<noteq> 0"
  shows "pow2 (binade x) \<le> \<bar>x\<bar>" and "\<bar>x\<bar> < pow2 (binade x + 1)"
proof -
  obtain p q where pq: "quotient_of \<bar>x\<bar> = (p, q)"
    by (cases "quotient_of \<bar>x\<bar>")
  then have q: "0 < q" and x: "\<bar>x\<bar> = of_int p / of_int q"
    by (simp_all add: quotient_of_denom_pos quotient_of_div)
  from assms have "0 < \<bar>x\<bar>" by simp
  with q x have p: "0 < p"
    by (simp add: zero_less_divide_iff)
  define bp bq where "bp = bitlen p" and "bq = bitlen q"
  from p q have b1: "1 \<le> bp" "1 \<le> bq"
    using bitlen_eq_zero_iff [of p] bitlen_eq_zero_iff [of q] bitlen_nonneg [of p] bitlen_nonneg [of q]
    by (simp_all add: bp_def bq_def)
  from bitlen_bounds [OF p] have pb: "2 ^ nat (bp - 1) \<le> p" "p < 2 ^ nat bp"
    by (simp_all add: bp_def)
  from bitlen_bounds [OF q] have qb: "2 ^ nat (bq - 1) \<le> q" "q < 2 ^ nat bq"
    by (simp_all add: bq_def)
  have lo: "pow2 (bp - bq - 1) \<le> \<bar>x\<bar>"
  proof -
    have "pow2 (bp - bq - 1) = pow2 (bp - 1) / pow2 bq"
      using pow2_diff [of "bp - 1" bq] by (simp add: algebra_simps)
    also have "\<dots> = 2 ^ nat (bp - 1) / 2 ^ nat bq"
      using b1 by (simp add: pow2_nat)
    also have "\<dots> \<le> of_int p / of_int q"
    proof (rule frac_le)
      show "(2::rat) ^ nat (bp - 1) \<le> of_int p"
        using pb(1) by (metis of_int_le_iff of_int_numeral of_int_power)
      show "of_int q \<le> (2::rat) ^ nat bq"
        using qb(2) by (metis less_imp_le of_int_le_iff of_int_numeral of_int_power)
    qed (use p q in simp_all)
    finally show ?thesis by (simp add: x)
  qed
  have hi: "\<bar>x\<bar> < pow2 (bp - bq + 1)"
  proof -
    have "of_int p / of_int q < (2::rat) ^ nat bp / 2 ^ nat (bq - 1)"
    proof (rule frac_less)
      show "of_int p < (2::rat) ^ nat bp"
        using pb(2) by (metis of_int_less_iff of_int_numeral of_int_power)
      show "(2::rat) ^ nat (bq - 1) \<le> of_int q"
        using qb(1) by (metis of_int_le_iff of_int_numeral of_int_power)
    qed (use p q in simp_all)
    also have "\<dots> = pow2 bp / pow2 (bq - 1)"
      using b1 by (simp add: pow2_nat)
    also have "\<dots> = pow2 (bp - bq + 1)"
      using pow2_diff [of bp "bq - 1"] by (simp add: algebra_simps)
    finally show ?thesis by (simp add: x)
  qed
  have e: "binade x = (if pow2 (bp - bq) \<le> \<bar>x\<bar> then bp - bq else bp - bq - 1)"
    by (simp add: binade_def pq bp_def bq_def Let_def)
  show "pow2 (binade x) \<le> \<bar>x\<bar>"
    using lo by (simp add: e)
  show "\<bar>x\<bar> < pow2 (binade x + 1)"
    using hi by (auto simp: e not_le)
qed


text \<open>An integer below \<open>2 ^ 53\<close> in magnitude, so every \<open>int\<close>, is not changed by the
  rounding.\<close>

lemma round_even_of_int: "round_even (of_int n) = n"
  by (simp add: round_even_def)

lemma to_double_of_int:
  assumes "\<bar>k\<bar> < 2 ^ 53"
  shows "to_double (of_int k) = of_int k"
proof (cases "k = 0")
  case True
  then show ?thesis by (simp add: to_double_def)
next
  case False
  define e where "e = binade (of_int k)"
  from False have nz: "(of_int k :: rat) \<noteq> 0" by simp
  have "e \<le> 52"
  proof (rule ccontr)
    assume "\<not> e \<le> 52"
    then have e: "53 \<le> nat e" "0 \<le> e" by simp_all
    then have "(2::rat) ^ 53 \<le> 2 ^ nat e"
      by (intro power_increasing) simp_all
    also have "\<dots> = pow2 e"
      using e(2) by (simp add: pow2_nat)
    also have "\<dots> \<le> \<bar>of_int k\<bar>"
      unfolding e_def by (rule binade_bounds(1) [OF nz])
    finally have "(2::int) ^ 53 \<le> \<bar>k\<bar>"
      by (metis of_int_abs of_int_le_iff of_int_numeral of_int_power)
    with assms show False by simp
  qed
  define n where "n = nat (52 - e)"
  from \<open>e \<le> 52\<close> have u: "pow2 (e - 52) = 1 / 2 ^ n"
    by (auto simp: pow2_def n_def)
  have "(of_int k :: rat) / (1 / 2 ^ n) = of_int (k * 2 ^ n)"
    by simp
  then have "round_even (of_int k / pow2 (e - 52)) = k * 2 ^ n"
    by (simp only: u round_even_of_int)
  then show ?thesis
    using nz by (simp add: to_double_def e_def [symmetric] u Let_def)
qed








section \<open>Properties of the generator\<close>

lemma sint_times_10:
  fixes sz :: cint
  assumes "0 \<le> sint sz" "sint sz * 10 < 2 ^ 31"
  shows "sint (sz * 10) = sint sz * 10"
proof -
  have "sint (sz * 10) = signed_take_bit 31 (sint sz * sint (10 :: cint))"
    by (simp add: sint_word_ariths)
  also have "\<dots> = sint sz * 10"
    using assms by (simp add: signed_take_bit_int_eq_self)
  finally show ?thesis .
qed

lemma generateSortedArray_result:
  assumes "0 \<le> sint sz" and "\<not> snd (dist_bounds sz) <s fst (dist_bounds sz)"
  shows "\<exists>r. generateSortedArray draw sz = Inr r \<and> length r = nat (sint sz)
    \<and> sorted (map sint r) \<and> set r = draw ` {..<nat (sint sz)}"
  using assms by (simp add: generateSortedArray_def atLeast0LessThan)

text \<open>For \<open>size = 0\<close> the distribution is built with the bounds \<open>(1, 0)\<close>.\<close>

lemma generateSortedArray_zero: "generateSortedArray draw 0 = Inl InvalidRange"
  by (simp add: generateSortedArray_def dist_bounds_def word_sless_alt)

section \<open>The claims\<close>

text \<open>
  \<^bold>\<open>C1\<close> (soundness of the result). For a vector \<open>S\<close> sorted in non-decreasing order
  and a target \<open>t\<close>: when \<open>interpolationSearch\<close> returns an index \<open>i\<close> other than the
  sentinel \<open>-1\<close>, then \<open>i\<close> is a valid 0-based index into \<open>S\<close> and \<open>S[i] = t\<close>.
\<close>

theorem search_result_sound:
  assumes "sorted (map sint S)" and "interpolationSearch S t = Inr i" and "i \<noteq> - 1"
  shows "0 \<le> sint i \<and> sint i < int (length S) \<and> S ! nat (sint i) = t"
  using search_loop_sound [of S t 0 "size_minus_1 S" i] assms(2,3)
  by (simp add: interpolationSearch_def subscript_Inr_iff)

theorem search_result_sound_witness:
  "sorted (map sint [2, 3, 5, 7, 11 :: cint])
   \<and> interpolationSearch [2, 3, 5, 7, 11] 7 = Inr 3 \<and> (3 :: cint) \<noteq> - 1
   \<and> (0 \<le> sint (3 :: cint) \<and> sint (3 :: cint) < int (length [2, 3, 5, 7, 11 :: cint])
      \<and> [2, 3, 5, 7, 11 :: cint] ! nat (sint (3 :: cint)) = 7)"
proof -
  have h1: "sorted (map sint [2, 3, 5, 7, 11 :: cint])" by simp
  have h2: "interpolationSearch [2, 3, 5, 7, 11] 7 = Inr 3" by code_simp
  have h3: "(3 :: cint) \<noteq> - 1" by simp
  from search_result_sound [OF h1 h2 h3] h1 h2 h3 show ?thesis by blast
qed

text \<open>
  \<^bold>\<open>C2\<close> (completeness for present targets), as amended. For a vector \<open>S\<close> sorted in
  non-decreasing order, of at most \<open>2 ^ 31\<close> elements, and a value \<open>v\<close> that occurs in
  \<open>S\<close>, the search returns an index \<open>i\<close>, not the sentinel, with \<open>S[i] = v\<close>. A longer
  vector is not searched as a whole, since \<open>arr.size() - 1\<close> does not fit the \<open>int\<close>
  variable \<open>high\<close>: for \<open>2 ^ 31 + 1\<close> zeros the search for \<open>0\<close> returns \<open>-1\<close>.
\<close>

theorem search_finds_present:
  assumes "sorted (map sint S)" and "v \<in> set S" and "length S \<le> 2 ^ 31"
  shows "\<exists>i. interpolationSearch S v = Inr i \<and> i \<noteq> - 1
    \<and> 0 \<le> sint i \<and> sint i < int (length S) \<and> S ! nat (sint i) = v"
proof -
  from assms(2) obtain j where j: "j < length S" "S ! j = v"
    by (auto simp: in_set_conv_nth)
  with assms(3) have hi: "sint (size_minus_1 S) = int (length S) - 1"
    by (simp add: sint_size_minus_1)
  with j have "\<exists>k. sint (0 :: cint) \<le> k \<and> k \<le> sint (size_minus_1 S) \<and> S ! nat k = v"
    by (intro exI [of _ "int j"]) simp
  from search_loop_complete [OF assms(1) _ _ this] hi
  obtain i where i: "search_loop S v 0 (size_minus_1 S) = Inr i" "subscript S i = Inr v"
    by auto
  from i(2) have "0 \<le> sint i" "sint i < int (length S)" "S ! nat (sint i) = v"
    by (simp_all add: subscript_Inr_iff)
  moreover from this have "i \<noteq> - 1" by auto
  ultimately show ?thesis
    using i(1) by (simp add: interpolationSearch_def)
qed

theorem search_finds_present_witness:
  "sorted (map sint [- 5, 0, 0, 8, 13 :: cint]) \<and> (8 :: cint) \<in> set [- 5, 0, 0, 8, 13]
   \<and> length [- 5, 0, 0, 8, 13 :: cint] \<le> 2 ^ 31
   \<and> (\<exists>i. interpolationSearch [- 5, 0, 0, 8, 13] 8 = Inr i \<and> i \<noteq> - 1
    \<and> 0 \<le> sint i \<and> sint i < int (length [- 5, 0, 0, 8, 13 :: cint])
    \<and> [- 5, 0, 0, 8, 13 :: cint] ! nat (sint i) = 8)"
proof -
  have h1: "sorted (map sint [- 5, 0, 0, 8, 13 :: cint])" by simp
  have h2: "(8 :: cint) \<in> set [- 5, 0, 0, 8, 13]" by simp
  have h3: "length [- 5, 0, 0, 8, 13 :: cint] \<le> 2 ^ 31" by simp
  from search_finds_present [OF h1 h2 h3] h1 h2 h3 show ?thesis by blast
qed

theorem search_present_huge_counterexample:
  "sorted (map sint (replicate 2147483649 (0 :: cint)))
   \<and> (0 :: cint) \<in> set (replicate 2147483649 0)
   \<and> interpolationSearch (replicate 2147483649 0) 0 = Inr (- 1)"
  by (simp add: huge_vector_not_searched sorted_replicate)

text \<open>
  \<^bold>\<open>C3\<close> (not found, without false positives). For a vector \<open>S\<close> sorted in non-decreasing
  order and a value \<open>v\<close> that occurs nowhere in \<open>S\<close>, the search returns the sentinel
  \<open>-1\<close>. When moreover \<open>v\<close> lies outside \<open>[S[0], S[n-1]]\<close> (or \<open>S\<close> is empty), the loop
  condition is false at its first evaluation: the body never runs and no position is
  probed.
\<close>

theorem search_absent_not_found:
  assumes "sorted (map sint S)" and "v \<notin> set S"
  shows "interpolationSearch S v = Inr (- 1)
    \<and> (S = [] \<or> v <s hd S \<or> last S <s v \<longrightarrow> loop_cond S v 0 (size_minus_1 S) = Inr False)"
proof -
  from search_no_error obtain r where r: "interpolationSearch S v = Inr r"
    by blast
  have "r = - 1"
  proof (rule ccontr)
    assume "r \<noteq> - 1"
    with r have "subscript S r = Inr v"
      unfolding interpolationSearch_def by (rule search_loop_sound)
    then have "v \<in> set S"
      by (auto simp: subscript_Inr_iff)
    with assms(2) show False by simp
  qed
  with r loop_cond_outside [OF assms(1)] show ?thesis by blast
qed

theorem search_absent_not_found_witness:
  "sorted (map sint [1, 3, 5 :: cint])
   \<and> (4 :: cint) \<notin> set [1, 3, 5] \<and> interpolationSearch [1, 3, 5] 4 = Inr (- 1)
   \<and> (9 :: cint) \<notin> set [1, 3, 5] \<and> interpolationSearch [1, 3, 5] 9 = Inr (- 1)
   \<and> last [1, 3, 5 :: cint] <s 9 \<and> loop_cond [1, 3, 5] 9 0 (size_minus_1 [1, 3, 5]) = Inr False"
proof -
  have h1: "sorted (map sint [1, 3, 5 :: cint])" by simp
  have h2: "(4 :: cint) \<notin> set [1, 3, 5]" by simp
  have h3: "(9 :: cint) \<notin> set [1, 3, 5]" by simp
  have h4: "last [1, 3, 5 :: cint] <s 9" by (simp add: word_sless_alt)
  from search_absent_not_found [OF h1 h2] search_absent_not_found [OF h1 h3] h1 h2 h3 h4
  show ?thesis by blast
qed

text \<open>
  \<^bold>\<open>C4\<close> (termination). For every vector \<open>S\<close>, of any length and sorted or not, and
  every target, the loop ends: it has returned after at most \<open>length S + 1\<close> evaluations
  of its condition, with the result of \<open>interpolationSearch\<close>. An iteration that does not
  return moves \<open>low\<close> up or \<open>high\<close> down and makes \<open>high - low\<close> strictly smaller.
\<close>

theorem search_terminates:
  "run_loop (length S + 1) S t 0 (size_minus_1 S) = Some (interpolationSearch S t)
   \<and> (\<forall>low high low' high'.
        loop_cond S t low high = Inr True \<and> loop_body S t low high = Inr (Continue low' high')
        \<longrightarrow> sint low \<le> sint low' \<and> sint high' \<le> sint high
            \<and> sint high' - sint low' < sint high - sint low)"
proof -
  have "nat (sint (size_minus_1 S) - sint (0 :: cint) + 1) < length S + 1"
    using sint_size_minus_1_less [of S] by simp
  then have "run_loop (length S + 1) S t 0 (size_minus_1 S) = Some (interpolationSearch S t)"
    unfolding interpolationSearch_def by (rule run_loop_enough)
  then show ?thesis
    using loop_shrinks_aux [of S t] by blast
qed

theorem search_terminates_witness:
  "run_loop (length [0, 49 :: cint] + 1) [0, 49] 49 0 (size_minus_1 [0, 49])
     = Some (interpolationSearch [0, 49] 49)
   \<and> loop_cond [0, 49] 49 0 1 = Inr True \<and> loop_body [0, 49] 49 0 1 = Inr (Continue 1 1)
   \<and> sint (0 :: cint) \<le> sint (1 :: cint) \<and> sint (1 :: cint) \<le> sint (1 :: cint)
   \<and> sint (1 :: cint) - sint (1 :: cint) < sint (1 :: cint) - sint (0 :: cint)"
proof -
  have h1: "loop_cond [0, 49] 49 0 1 = Inr True" by code_simp
  have h2: "loop_body [0, 49] 49 0 1 = Inr (Continue 1 1)" by code_simp
  from search_terminates [of "[0, 49]" 49] h1 h2 show ?thesis by blast
qed

text \<open>
  \<^bold>\<open>C5\<close> (safety of every probe). At every pair of bounds the loop reaches, the loop
  condition reads elements inside the vector only. In every iteration (the condition
  holds) \<open>low\<close> and \<open>high\<close> lie in \<open>[0, n - 1]\<close>, the clamped position lies in
  \<open>[low, high]\<close> whatever the estimate was, and the body runs without an access out of
  bounds and without a division by zero: the estimate is computed only after
  \<open>arr[high] = arr[low]\<close> was excluded, and the divisor \<open>arr[high] - arr[low]\<close> is then not
  zero.
\<close>

theorem probes_in_bounds:
  assumes "reachable S t low high"
  shows "(\<exists>c. loop_cond S t low high = Inr c)
    \<and> (loop_cond S t low high = Inr True \<longrightarrow>
         0 \<le> sint low \<and> sint low \<le> sint high \<and> sint high < int (length S)
         \<and> (\<forall>p. sint low \<le> sint (clamp p low high) \<and> sint (clamp p low high) \<le> sint high)
         \<and> (\<exists>it. loop_body S t low high = Inr it))"
proof -
  from reachable_bounds [OF assms] have b: "0 \<le> sint low" "sint high < int (length S)"
    by simp_all
  have "\<exists>c. loop_cond S t low high = Inr c"
    using b by (rule loop_cond_no_error)
  moreover have "0 \<le> sint low \<and> sint low \<le> sint high \<and> sint high < int (length S)
         \<and> (\<forall>p. sint low \<le> sint (clamp p low high) \<and> sint (clamp p low high) \<le> sint high)
         \<and> (\<exists>it. loop_body S t low high = Inr it)"
    if "loop_cond S t low high = Inr True"
  proof -
    from loop_cond_True [OF that] have lh: "low \<le>s high" by blast
    with b clamp_range [OF lh] loop_body_no_error [OF b lh, of t] show ?thesis
      by (simp add: word_sle_eq)
  qed
  ultimately show ?thesis by blast
qed

theorem probes_in_bounds_witness:
  "reachable [0, 49] 49 1 1 \<and> loop_cond [0, 49] 49 1 1 = Inr True
   \<and> 0 \<le> sint (1 :: cint) \<and> sint (1 :: cint) < int (length [0, 49 :: cint])
   \<and> (\<exists>it. loop_body [0, 49] 49 1 1 = Inr it)"
proof -
  have s: "size_minus_1 [0, 49] = 1" by (simp add: size_minus_1_def)
  have h1: "loop_cond [0, 49] 49 0 1 = Inr True" by code_simp
  have h2: "loop_body [0, 49] 49 0 1 = Inr (Continue 1 1)" by code_simp
  have r: "reachable [0, 49] 49 1 1"
    using reachable.step [OF reachable.start [of "[0, 49]" 49, unfolded s] h1 h2] .
  have h3: "loop_cond [0, 49] 49 1 1 = Inr True" by code_simp
  from probes_in_bounds [OF r] r h3 show ?thesis by auto
qed




text \<open>
  With an overflow of the two \<open>int\<close> differences the estimate is further off: the
  bound on \<open>S[high] - S[low]\<close> cannot be dropped from the amended claim.
\<close>

lemma probe_overflow_example:
  "probe 0 2 (- 2147483648) 2147483646 2147483644 = Inr 4
   \<and> interpolated_position 0 2 (- 2147483648) 2147483646 2147483644 = 1"
  by code_simp

text \<open>
  \<^bold>\<open>C7\<close> (empty sequence). For every target, the search of the empty vector returns
  \<open>-1\<close>; the loop condition is false at its first evaluation, and no element is
  read (a read of the empty vector would be the result \<open>Inl OutOfBounds\<close>).
\<close>

theorem search_empty:
  "interpolationSearch [] t = Inr (- 1) \<and> loop_cond [] t 0 (size_minus_1 []) = Inr False"
proof -
  have "loop_cond [] t 0 (size_minus_1 []) = Inr False"
    by (simp add: loop_cond_def size_minus_1_Nil word_sle_eq)
  then show ?thesis
    by (simp add: interpolationSearch_def search_loop_exit)
qed

text \<open>
  \<^bold>\<open>C8\<close> (postcondition of the generator), as amended. For every size with
  \<open>1 \<le> size\<close> and \<open>size * 10 \<le> INT_MAX\<close>, each value drawn lying within the bounds of
  the distribution, \<open>generateSortedArray(size)\<close> returns a vector of exactly \<open>size\<close>
  elements, sorted in non-decreasing order, with every element in \<open>[1, size * 10]\<close>.
  Outside these sizes the distribution is built with its lower bound above the upper
  one, and the claim says nothing.
\<close>

theorem generated_array_sorted:
  assumes "1 \<le> sint sz" and "sint sz * 10 < 2 ^ 31"
    and "\<forall>i<nat (sint sz). drawn_within (dist_bounds sz) (draw i)"
  shows "\<exists>r. generateSortedArray draw sz = Inr r \<and> length r = nat (sint sz)
    \<and> sorted (map sint r) \<and> (\<forall>x\<in>set r. 1 \<le> sint x \<and> sint x \<le> sint sz * 10)"
proof -
  from assms(1) have sz0: "0 \<le> sint sz" by simp
  note prod = sint_times_10 [OF sz0 assms(2)]
  from assms(1) have valid: "\<not> snd (dist_bounds sz) <s fst (dist_bounds sz)"
    by (simp add: dist_bounds_def word_sless_alt prod)
  from generateSortedArray_result [OF sz0 valid] obtain r where
    r: "generateSortedArray draw sz = Inr r" "length r = nat (sint sz)"
       "sorted (map sint r)" "set r = draw ` {..<nat (sint sz)}"
    by blast
  have "1 \<le> sint x \<and> sint x \<le> sint sz * 10" if "x \<in> set r" for x
  proof -
    from that r(4) obtain i where "i < nat (sint sz)" "x = draw i"
      by auto
    with assms(3) have "drawn_within (dist_bounds sz) x"
      by simp
    then show ?thesis
      by (simp add: drawn_within_def dist_bounds_def word_sle_eq prod)
  qed
  with r show ?thesis by blast
qed

theorem generated_array_sorted_witness:
  "1 \<le> sint (3 :: cint) \<and> sint (3 :: cint) * 10 < 2 ^ 31
   \<and> drawn_within (dist_bounds 3) 20 \<and> drawn_within (dist_bounds 3) 3
   \<and> drawn_within (dist_bounds 3) 11
   \<and> (\<exists>r. generateSortedArray (\<lambda>i. [20, 3, 11] ! i) 3 = Inr r \<and> length r = nat (sint (3 :: cint))
      \<and> sorted (map sint r) \<and> (\<forall>x\<in>set r. 1 \<le> sint x \<and> sint x \<le> sint (3 :: cint) * 10))"
proof -
  have h1: "1 \<le> sint (3 :: cint)" by simp
  have h2: "sint (3 :: cint) * 10 < 2 ^ 31" by simp
  have d: "drawn_within (dist_bounds 3) 20" "drawn_within (dist_bounds 3) 3"
    "drawn_within (dist_bounds 3) 11"
    by (simp_all add: drawn_within_def dist_bounds_def word_sle_eq)
  have "nat (sint (3 :: cint)) = 3" by simp
  with d have h3: "\<forall>i<nat (sint (3 :: cint)). drawn_within (dist_bounds 3) ([20, 3, 11] ! i)"
    by (simp add: less_Suc_eq numeral_3_eq_3)
  from generated_array_sorted [OF h1 h2 h3] h1 h2 d show ?thesis by blast
qed

text \<open>
  The counterexample to C8 as stated: \<open>size = 214748365\<close> is not negative, but the \<open>int\<close>
  product \<open>size * 10\<close> overflows. With wrap-around the distribution is built with the
  bounds \<open>(1, -2147483646)\<close>, its lower bound above the upper one: whatever would be
  drawn, the call does not return a vector.
\<close>

theorem generated_array_overflow_counterexample:
  "0 \<le> sint (214748365 :: cint) \<and> dist_bounds 214748365 = (1, - 2147483646)
   \<and> (- 2147483646 :: cint) <s 1
   \<and> (\<forall>draw. generateSortedArray draw 214748365 = Inl InvalidRange)"
proof -
  have b: "dist_bounds 214748365 = (1, - 2147483646)"
    by (simp add: dist_bounds_def)
  have l: "(- 2147483646 :: cint) <s 1"
    by (simp add: word_sless_alt)
  have "generateSortedArray draw 214748365 = Inl InvalidRange" for draw
    unfolding generateSortedArray_def b using l by simp
  with b l show ?thesis by simp
qed

text \<open>
  \<^bold>\<open>C9\<close> (the demonstration of \<^verbatim>\<open>main\<close>). The search of \<open>[10, 20, 30, 40, 50]\<close> for
  \<open>40\<close> returns index \<open>3\<close>.
\<close>

theorem search_demonstration: "interpolationSearch [10, 20, 30, 40, 50] 40 = Inr 3"
  by code_simp

text \<open>
  \<^bold>\<open>C10\<close> (all elements equal), as amended. For a non-empty vector \<open>S\<close> of at most
  \<open>2 ^ 31\<close> elements, all equal to \<open>c\<close>, the search for \<open>c\<close> returns exactly index \<open>0\<close>:
  the branch for equal end points returns \<open>low = 0\<close> in the first iteration. The bound
  on the length is needed: \<open>arr.size() - 1\<close> is stored into an \<open>int\<close>, and for a vector of
  \<open>2 ^ 31 + 1\<close> elements \<open>high\<close> is negative, the loop is not entered and the result
  is \<open>-1\<close>.
\<close>

theorem search_all_equal_first:
  assumes "S \<noteq> []" and "length S \<le> 2 ^ 31" and "\<forall>x\<in>set S. x = c"
  shows "interpolationSearch S c = Inr 0"
proof -
  let ?high = "size_minus_1 S"
  from assms(1,2) have hi: "sint ?high = int (length S) - 1" "0 \<le> sint ?high"
    by (simp_all add: sint_size_minus_1)
  then have b: "0 \<le> sint (0 :: cint)" "sint ?high < int (length S)" "0 \<le>s ?high"
    by (simp_all add: word_sle_eq)
  from assms(1) have "0 < length S" by simp
  with hi have "0 < length S" "nat (sint ?high) < length S"
    by (simp_all del: length_greater_0_conv)
  with assms(3) have el: "S ! 0 = c" "S ! nat (sint ?high) = c"
    using nth_mem by blast+
  have "loop_cond S c 0 ?high = Inr True"
    by (simp add: loop_cond_in_bounds [OF b] el)
  moreover have "loop_body S c 0 ?high = Inr (Return 0)"
    by (simp add: loop_body_in_bounds [OF b] el)
  ultimately show ?thesis
    by (simp add: interpolationSearch_def search_loop_return)
qed

theorem search_all_equal_first_witness:
  "[4, 4, 4 :: cint] \<noteq> [] \<and> length [4, 4, 4 :: cint] \<le> 2 ^ 31
   \<and> set [4, 4, 4 :: cint] = {4} \<and> interpolationSearch [4, 4, 4] 4 = Inr 0"
proof -
  have h1: "[4, 4, 4 :: cint] \<noteq> []" by simp
  have h2: "length [4, 4, 4 :: cint] \<le> 2 ^ 31" by simp
  have h3: "\<forall>x\<in>set [4, 4, 4 :: cint]. x = 4" by simp
  have h4: "set [4, 4, 4 :: cint] = {4}" by simp
  from search_all_equal_first [OF h1 h2 h3] h1 h2 h4 show ?thesis by blast
qed

theorem search_all_equal_huge_counterexample:
  "replicate 2147483649 (7 :: cint) \<noteq> [] \<and> set (replicate 2147483649 (7 :: cint)) = {7}
   \<and> interpolationSearch (replicate 2147483649 7) 7 = Inr (- 1)"
  by (simp add: huge_vector_not_searched)

end
